theory Spec2Isabelle
  imports
    Main
    "HOL-Library.Multiset"
    "HOL-Library.Char_ord"
    "HOL-Library.List_Lexorder"
begin

section \<open>Domain model\<close>

text \<open>
  The module \<^verbatim>\<open>dasa_insumos_ds.py\<close> keeps supplies (\<^verbatim>\<open>Insumo\<close>) in memory and
  offers a queue, a stack, two searches and two sorts over them.

  A \<^verbatim>\<open>datetime\<close> is modelled by its position on the time line, an integer (naive
  datetimes are totally ordered by it). A Python \<^verbatim>\<open>str\<close> is a \<^typ>\<open>string\<close>; its
  comparison operators are the lexicographic order on character codes, which is the
  order of \<^theory_text>\<open>List_Lexorder\<close> over \<^theory_text>\<open>Char_ord\<close>.
\<close>

type_synonym datetime = int

record Insumo =
  insumo :: string
  quantidade :: int
  exame :: string
  validade :: "datetime option"

text \<open>
  A character of the model is one code point of the Python string, in the range 0 to
  255 (ASCII and Latin-1), not a byte of an encoding; this range holds every name of
  the module's data, accented letters included. Names with code points above 255 are
  not values of the model.

  \<^verbatim>\<open>str.lower()\<close> on such strings works character by character: the code points it
  changes are \<^verbatim>\<open>A\<close> to \<^verbatim>\<open>Z\<close> (0x41 to 0x5A) and the accented capitals 0xC0 to
  0xDE except the multiplication sign 0xD7, and each of them moves up by 32 to its small
  letter; every other code point below 256 is its own lowering.
\<close>

definition lower_char :: "char \<Rightarrow> char" where
  "lower_char c =
     (if (CHR ''A'' \<le> c \<and> c \<le> CHR ''Z'')
         \<or> (CHR 0xC0 \<le> c \<and> c \<le> CHR 0xDE \<and> c \<noteq> CHR 0xD7)
      then char_of (of_char c + (32::nat)) else c)"

definition lower :: "string \<Rightarrow> string" where
  "lower s = map lower_char s"

text \<open>The exceptions the built-in containers can raise in the modelled code.\<close>

datatype py_error = IndexError


section \<open>Queue and stack\<close>

type_synonym entry = "datetime \<times> Insumo"

text \<open>
  \<^verbatim>\<open>FilaConsumo\<close> owns a \<^verbatim>\<open>deque\<close> of \<^verbatim>\<open>(timestamp, Insumo)\<close> pairs, head first.
  \<^verbatim>\<open>datetime.now()\<close> is an input of the model: the argument \<open>now\<close>.
\<close>

record FilaConsumo =
  fila_q :: "entry list"

definition FilaConsumo_init :: FilaConsumo where
  "FilaConsumo_init = \<lparr>fila_q = []\<rparr>"

text \<open>\<^verbatim>\<open>deque.popleft()\<close> raises \<^verbatim>\<open>IndexError\<close> on an empty deque.\<close>

definition popleft :: "'a list \<Rightarrow> py_error + ('a \<times> 'a list)" where
  "popleft d = (case d of [] \<Rightarrow> Inl IndexError | x # rest \<Rightarrow> Inr (x, rest))"

definition registrar_consumo :: "FilaConsumo \<Rightarrow> datetime \<Rightarrow> Insumo \<Rightarrow> FilaConsumo" where
  "registrar_consumo self now item = self\<lparr>fila_q := fila_q self @ [(now, item)]\<rparr>"

definition proximo :: "FilaConsumo \<Rightarrow> py_error + (entry option \<times> FilaConsumo)" where
  "proximo self =
     (if fila_q self \<noteq> [] then
        (case popleft (fila_q self) of
           Inl e \<Rightarrow> Inl e
         | Inr (x, rest) \<Rightarrow> Inr (Some x, self\<lparr>fila_q := rest\<rparr>))
      else Inr (None, self))"

definition fila_len :: "FilaConsumo \<Rightarrow> nat" where
  "fila_len self = length (fila_q self)"

definition fila_iter :: "FilaConsumo \<Rightarrow> entry list" where
  "fila_iter self = fila_q self"

text \<open>
  \<^verbatim>\<open>PilhaConsultas\<close> owns a Python list, bottom first; \<^verbatim>\<open>append\<close> and \<^verbatim>\<open>pop\<close> work at
  its end. \<^verbatim>\<open>list.pop()\<close> raises \<^verbatim>\<open>IndexError\<close> on an empty list.
\<close>

record PilhaConsultas =
  pilha_stack :: "entry list"

definition PilhaConsultas_init :: PilhaConsultas where
  "PilhaConsultas_init = \<lparr>pilha_stack = []\<rparr>"

definition list_pop :: "'a list \<Rightarrow> py_error + ('a \<times> 'a list)" where
  "list_pop l = (if l = [] then Inl IndexError else Inr (last l, butlast l))"

definition consultar :: "PilhaConsultas \<Rightarrow> datetime \<Rightarrow> Insumo \<Rightarrow> PilhaConsultas" where
  "consultar self now item = self\<lparr>pilha_stack := pilha_stack self @ [(now, item)]\<rparr>"

definition ultimo :: "PilhaConsultas \<Rightarrow> py_error + (entry option \<times> PilhaConsultas)" where
  "ultimo self =
     (if pilha_stack self \<noteq> [] then
        (case list_pop (pilha_stack self) of
           Inl e \<Rightarrow> Inl e
         | Inr (x, rest) \<Rightarrow> Inr (Some x, self\<lparr>pilha_stack := rest\<rparr>))
      else Inr (None, self))"

definition pilha_len :: "PilhaConsultas \<Rightarrow> nat" where
  "pilha_len self = length (pilha_stack self)"

definition pilha_iter :: "PilhaConsultas \<Rightarrow> entry list" where
  "pilha_iter self = pilha_stack self"

text \<open>
  A caller is a sequence of method calls. Running it collects what the removing calls
  return, in call order, and stops at the first exception.
\<close>

datatype fila_call = Registrar datetime Insumo | Proximo

fun fila_run :: "fila_call list \<Rightarrow> FilaConsumo \<Rightarrow> py_error + (entry option list \<times> FilaConsumo)" where
  "fila_run [] self = Inr ([], self)"
| "fila_run (Registrar now item # calls) self = fila_run calls (registrar_consumo self now item)"
| "fila_run (Proximo # calls) self =
     (case proximo self of
        Inl e \<Rightarrow> Inl e
      | Inr (r, self') \<Rightarrow>
          (case fila_run calls self' of
             Inl e \<Rightarrow> Inl e
           | Inr (rs, self'') \<Rightarrow> Inr (r # rs, self'')))"

datatype pilha_call = Consultar datetime Insumo | Ultimo

fun pilha_run :: "pilha_call list \<Rightarrow> PilhaConsultas \<Rightarrow> py_error + (entry option list \<times> PilhaConsultas)" where
  "pilha_run [] self = Inr ([], self)"
| "pilha_run (Consultar now item # calls) self = pilha_run calls (consultar self now item)"
| "pilha_run (Ultimo # calls) self =
     (case ultimo self of
        Inl e \<Rightarrow> Inl e
      | Inr (r, self') \<Rightarrow>
          (case pilha_run calls self' of
             Inl e \<Rightarrow> Inl e
           | Inr (rs, self'') \<Rightarrow> Inr (r # rs, self'')))"

text \<open>The entries a call sequence inserts, in call order.\<close>

fun fila_inserted :: "fila_call list \<Rightarrow> entry list" where
  "fila_inserted [] = []"
| "fila_inserted (Registrar now item # calls) = (now, item) # fila_inserted calls"
| "fila_inserted (Proximo # calls) = fila_inserted calls"

text \<open>The entries among the results of the removing calls, in call order.\<close>

definition removed :: "entry option list \<Rightarrow> entry list" where
  "removed rs = concat (map (\<lambda>r. case r of None \<Rightarrow> [] | Some e \<Rightarrow> [e]) rs)"


section \<open>Searches\<close>

fun busca_sequencial :: "Insumo list \<Rightarrow> string \<Rightarrow> Insumo option" where
  "busca_sequencial [] nome = None"
| "busca_sequencial (item # insumos) nome =
     (if lower (insumo item) = lower nome then Some item else busca_sequencial insumos nome)"

text \<open>
  Indexing a Python list with an integer: a negative index counts from the end, and an
  index outside \<open>[-len, len)\<close> raises \<^verbatim>\<open>IndexError\<close>.
\<close>

definition py_getitem :: "'a list \<Rightarrow> int \<Rightarrow> py_error + 'a" where
  "py_getitem xs i =
     (let n = int (length xs) in
      if 0 \<le> i \<and> i < n then Inr (xs ! nat i)
      else if - n \<le> i \<and> i < 0 then Inr (xs ! nat (n + i))
      else Inl IndexError)"

text \<open>
  The \<^verbatim>\<open>while lo <= hi\<close> loop of \<^verbatim>\<open>busca_binaria\<close>, over Python's unbounded integers,
  with \<open>nome\<close> already lowered. Next to the result it returns the indices the loop has
  read from the list, in reading order; the result itself does not depend on them.
  The termination proof is the strict shrinking of \<open>hi - lo + 1\<close> at every iteration.
\<close>

function busca_laco ::
  "Insumo list \<Rightarrow> string \<Rightarrow> int \<Rightarrow> int \<Rightarrow> int list \<times> (py_error + Insumo option)" where
  "busca_laco insumos_ordenados nome lo hi =
     (if lo \<le> hi then
        (let mid = (lo + hi) div 2 in
         case py_getitem insumos_ordenados mid of
           Inl e \<Rightarrow> ([mid], Inl e)
         | Inr item \<Rightarrow>
             (let atual = lower (insumo item) in
              if atual = nome then ([mid], Inr (Some item))
              else if atual < nome then
                (let (reads, r) = busca_laco insumos_ordenados nome (mid + 1) hi
                 in (mid # reads, r))
              else
                (let (reads, r) = busca_laco insumos_ordenados nome lo (mid - 1)
                 in (mid # reads, r))))
      else ([], Inr None))"
  by pat_completeness auto
termination
  by (relation "measure (\<lambda>(xs, nome, lo, hi). nat (hi - lo + 1))") auto

definition busca_binaria :: "Insumo list \<Rightarrow> string \<Rightarrow> py_error + Insumo option" where
  "busca_binaria insumos_ordenados nome =
     snd (busca_laco insumos_ordenados (lower nome) 0 (int (length insumos_ordenados) - 1))"

definition busca_binaria_reads :: "Insumo list \<Rightarrow> string \<Rightarrow> int list" where
  "busca_binaria_reads insumos_ordenados nome =
     fst (busca_laco insumos_ordenados (lower nome) 0 (int (length insumos_ordenados) - 1))"


section \<open>Sorts\<close>

text \<open>
  Keys are values of a linearly ordered type: integers for \<^verbatim>\<open>quantidade\<close>, strings for
  lowered names, time points for \<^verbatim>\<open>validade\<close>.

  The \<^verbatim>\<open>while i < len(a) and j < len(b)\<close> loop of \<^verbatim>\<open>_merge\<close>; it returns the final
  \<open>i\<close>, \<open>j\<close> and \<open>out\<close>. Both reads \<open>a ! i\<close> and \<open>b ! j\<close> stand under the loop
  condition.
\<close>

function merge_laco ::
  "(Insumo \<Rightarrow> 'k::linorder) \<Rightarrow> Insumo list \<Rightarrow> Insumo list \<Rightarrow> nat \<Rightarrow> nat \<Rightarrow> Insumo list
     \<Rightarrow> nat \<times> nat \<times> Insumo list" where
  "merge_laco key a b i j out =
     (if i < length a \<and> j < length b then
        (if key (a ! i) \<le> key (b ! j) then merge_laco key a b (i + 1) j (out @ [a ! i])
         else merge_laco key a b i (j + 1) (out @ [b ! j]))
      else (i, j, out))"
  by pat_completeness auto
termination
  by (relation "measure (\<lambda>(key, a, b, i, j, out). (length a - i) + (length b - j))") auto

text \<open>\<^verbatim>\<open>_merge\<close>: the loop, then \<^verbatim>\<open>out.extend(a[i:]); out.extend(b[j:])\<close>.\<close>

definition merge :: "Insumo list \<Rightarrow> Insumo list \<Rightarrow> (Insumo \<Rightarrow> 'k::linorder) \<Rightarrow> Insumo list" where
  "merge a b key = (case merge_laco key a b 0 0 [] of (i, j, out) \<Rightarrow> out @ drop i a @ drop j b)"

function merge_sort :: "Insumo list \<Rightarrow> (Insumo \<Rightarrow> 'k::linorder) \<Rightarrow> Insumo list" where
  "merge_sort itens key =
     (if length itens \<le> 1 then itens
      else
        (let mid = length itens div 2;
             esquerda = merge_sort (take mid itens) key;
             direita = merge_sort (drop mid itens) key
         in merge esquerda direita key))"
  by pat_completeness auto
termination
  by (relation "measure (\<lambda>(itens, key). length itens)") auto

text \<open>
  The random source of \<^verbatim>\<open>quick_sort\<close> is explicit: \<open>draws\<close> is the infinite sequence of
  numbers the generator will produce and \<open>n\<close> counts the draws already used.
  \<^verbatim>\<open>random.choice(seq)\<close> returns \<^verbatim>\<open>seq[i]\<close> for an index \<open>0 \<le> i < len(seq)\<close>; here the
  index is the next draw reduced modulo the length, so that every choice of indices the
  generator can make is the behaviour of some \<open>draws\<close>. The caller has checked that
  \<open>seq\<close> is not empty.
\<close>

definition random_choice :: "(nat \<Rightarrow> nat) \<Rightarrow> nat \<Rightarrow> 'a list \<Rightarrow> 'a \<times> nat" where
  "random_choice draws n seq = (seq ! (draws n mod length seq), n + 1)"

text \<open>
  \<^verbatim>\<open>quick_sort\<close> returns the sorted list and the number of draws used so far. Python
  evaluates \<^verbatim>\<open>quick_sort(menores, key) + iguais + quick_sort(maiores, key)\<close> from left to
  right, so the second call continues with the draws the first has left.
\<close>

function quick_sort ::
  "(nat \<Rightarrow> nat) \<Rightarrow> nat \<Rightarrow> Insumo list \<Rightarrow> (Insumo \<Rightarrow> 'k::linorder) \<Rightarrow> Insumo list \<times> nat" where
  "quick_sort draws n itens key =
     (if length itens \<le> 1 then (itens, n)
      else
        (let pivot = key (fst (random_choice draws n itens));
             n1 = snd (random_choice draws n itens);
             menores = filter (\<lambda>x. key x < pivot) itens;
             iguais = filter (\<lambda>x. key x = pivot) itens;
             maiores = filter (\<lambda>x. key x > pivot) itens;
             (lo, n2) = quick_sort draws n1 menores key;
             (hi, n3) = quick_sort draws n2 maiores key
         in (lo @ iguais @ hi, n3)))"
  by pat_completeness auto
termination
proof (relation "measure (\<lambda>(draws, n, itens, key). length itens)", goal_cases)
  case 1
  show ?case by simp
next
  case (2 draws n itens key pivot n1 menores)
  from 2 have "itens \<noteq> []" by auto
  then have "fst (random_choice draws n itens) \<in> set itens"
    by (simp add: random_choice_def)
  moreover have "\<not> key (fst (random_choice draws n itens)) < pivot"
    using 2 by simp
  ultimately have "length (filter (\<lambda>x. key x < pivot) itens) < length itens"
    by (rule length_filter_less)
  with 2 show ?case by simp
next
  case (3 draws n itens key pivot n1 menores iguais maiores)
  from 3 have "itens \<noteq> []" by auto
  then have "fst (random_choice draws n itens) \<in> set itens"
    by (simp add: random_choice_def)
  moreover have "\<not> pivot < key (fst (random_choice draws n itens))"
    using 3 by simp
  ultimately have "length (filter (\<lambda>x. pivot < key x) itens) < length itens"
    by (rule length_filter_less)
  with 3 show ?case by (simp add: comp_def)
qed

text \<open>
  The loop of \<^verbatim>\<open>_merge\<close> seen as a recursion on what is left of both lists; it is
  used in proofs only (lemma \<open>merge_eq_merge_rec\<close>).
\<close>

fun merge_rec :: "(Insumo \<Rightarrow> 'k::linorder) \<Rightarrow> Insumo list \<Rightarrow> Insumo list \<Rightarrow> Insumo list" where
  "merge_rec key [] ys = ys"
| "merge_rec key xs [] = xs"
| "merge_rec key (x # xs) (y # ys) =
     (if key x \<le> key y then x # merge_rec key xs (y # ys) else y # merge_rec key (x # xs) ys)"


text \<open>
  The equations of the loops and of the recursive sorts rewrite a call into itself, so
  they are unfolded by hand, one step at a time.
\<close>

declare merge_laco.simps [simp del] merge_sort.simps [simp del] quick_sort.simps [simp del]
  busca_laco.simps [simp del]


section \<open>Lemmas on the containers\<close>

lemma proximo_cases:
  "proximo self =
     (case fila_q self of [] \<Rightarrow> Inr (None, self) | x # rest \<Rightarrow> Inr (Some x, self\<lparr>fila_q := rest\<rparr>))"
  by (simp add: proximo_def popleft_def split: list.split)

lemma ultimo_cases:
  "ultimo self =
     (if pilha_stack self = [] then Inr (None, self)
      else Inr (Some (last (pilha_stack self)), self\<lparr>pilha_stack := butlast (pilha_stack self)\<rparr>))"
  by (simp add: ultimo_def list_pop_def)

lemma removed_simps:
  "removed [] = []"
  "removed (None # rs) = removed rs"
  "removed (Some e # rs) = e # removed rs"
  by (simp_all add: removed_def)

lemma fila_run_total:
  "\<exists>rs self'. fila_run calls self = Inr (rs, self') \<and>
      removed rs @ fila_q self' = fila_q self @ fila_inserted calls"
proof (induction calls self rule: fila_run.induct)
  case (1 self)
  show ?case by (simp add: removed_simps)
next
  case (2 now item calls self)
  then show ?case by (simp add: registrar_consumo_def)
next
  case (3 calls self)
  show ?case
  proof (cases "fila_q self")
    case Nil
    then have p: "proximo self = Inr (None, self)" by (simp add: proximo_cases)
    from "3.IH" [OF p refl] obtain rs s' where
      "fila_run calls self = Inr (rs, s')" "removed rs @ fila_q s' = fila_q self @ fila_inserted calls"
      by blast
    with p show ?thesis by (simp add: removed_simps)
  next
    case (Cons x rest)
    then have p: "proximo self = Inr (Some x, self\<lparr>fila_q := rest\<rparr>)" by (simp add: proximo_cases)
    from "3.IH" [OF p refl] obtain rs s' where
      "fila_run calls (self\<lparr>fila_q := rest\<rparr>) = Inr (rs, s')"
      "removed rs @ fila_q s' = rest @ fila_inserted calls"
      by auto
    with p Cons show ?thesis by (simp add: removed_simps)
  qed
qed

lemma fila_run_registrar:
  "fila_run (map (\<lambda>(now, item). Registrar now item) es @ calls) self =
     fila_run calls (self\<lparr>fila_q := fila_q self @ es\<rparr>)"
  by (induction es arbitrary: self) (auto simp: registrar_consumo_def)

lemma fila_run_drain:
  "fila_run (replicate (length es) Proximo @ calls) \<lparr>fila_q = es\<rparr> =
     (case fila_run calls \<lparr>fila_q = []\<rparr> of
        Inl e \<Rightarrow> Inl e
      | Inr (rs, s) \<Rightarrow> Inr (map Some es @ rs, s))"
  by (induction es) (auto simp: proximo_cases split: sum.splits)

lemma pilha_run_consultar:
  "pilha_run (map (\<lambda>(now, item). Consultar now item) es @ calls) self =
     pilha_run calls (self\<lparr>pilha_stack := pilha_stack self @ es\<rparr>)"
  by (induction es arbitrary: self) (auto simp: consultar_def)

lemma pilha_run_drain:
  "pilha_run (replicate (length es) Ultimo @ calls) \<lparr>pilha_stack = es\<rparr> =
     (case pilha_run calls \<lparr>pilha_stack = []\<rparr> of
        Inl e \<Rightarrow> Inl e
      | Inr (rs, s) \<Rightarrow> Inr (map Some (rev es) @ rs, s))"
  by (induction es rule: rev_induct) (auto simp: ultimo_cases split: sum.splits)


section \<open>Lemmas on the linear search\<close>

text \<open>
  The lowering on accented letters and at the borders of the two ranges of capitals:
  \<^verbatim>\<open>'\xc9TER'.lower() == '\xe9ter'\<close>; the signs 0xD7 and 0xDF, the small letters 0xFF
  and 0xB5 and the neighbours of \<^verbatim>\<open>A\<close> and \<^verbatim>\<open>Z\<close> stay.
\<close>

lemma lower_accented:
  "lower (CHR 0xC9 # ''TER'') = CHR 0xE9 # ''ter''"
  "lower [CHR 0xC0, CHR 0xD6, CHR 0xD7, CHR 0xD8, CHR 0xDE, CHR 0xDF, CHR 0xFF, CHR 0xB5]
     = [CHR 0xE0, CHR 0xF6, CHR 0xD7, CHR 0xF8, CHR 0xFE, CHR 0xDF, CHR 0xFF, CHR 0xB5]"
  "lower ''@AZ[`az{'' = ''@az[`az{''"
  by code_simp+

lemma busca_sequencial_None:
  "busca_sequencial insumos nome = None \<longleftrightarrow> (\<forall>x \<in> set insumos. lower (insumo x) \<noteq> lower nome)"
  by (induction insumos) auto

lemma busca_sequencial_Some:
  "busca_sequencial insumos nome = Some item \<Longrightarrow>
     \<exists>antes depois. insumos = antes @ item # depois \<and> lower (insumo item) = lower nome \<and>
        (\<forall>x \<in> set antes. lower (insumo x) \<noteq> lower nome)"
proof (induction insumos)
  case Nil
  then show ?case by simp
next
  case (Cons y ys)
  show ?case
  proof (cases "lower (insumo y) = lower nome")
    case True
    with Cons.prems have "item = y" by simp
    with True have "y # ys = [] @ item # ys \<and> lower (insumo item) = lower nome \<and>
        (\<forall>x \<in> set []. lower (insumo x) \<noteq> lower nome)" by simp
    then show ?thesis by blast
  next
    case False
    with Cons.prems have "busca_sequencial ys nome = Some item" by simp
    from Cons.IH [OF this] obtain antes depois where
      "ys = antes @ item # depois" "lower (insumo item) = lower nome"
      "\<forall>x \<in> set antes. lower (insumo x) \<noteq> lower nome" by blast
    with False have "y # ys = (y # antes) @ item # depois \<and> lower (insumo item) = lower nome \<and>
        (\<forall>x \<in> set (y # antes). lower (insumo x) \<noteq> lower nome)" by simp
    then show ?thesis by blast
  qed
qed


section \<open>Lemmas on the merge sort\<close>

lemma merge_sort_short: "length itens \<le> 1 \<Longrightarrow> merge_sort itens key = itens"
  by (simp add: merge_sort.simps [of itens key])

lemma merge_sort_long:
  "\<not> length itens \<le> 1 \<Longrightarrow>
     merge_sort itens key
       = merge (merge_sort (take (length itens div 2) itens) key)
           (merge_sort (drop (length itens div 2) itens) key) key"
  by (simp add: merge_sort.simps [of itens key] Let_def)

lemma merge_laco_rec:
  "merge_laco key a b i j out = (i', j', out') \<Longrightarrow>
     out' @ drop i' a @ drop j' b = out @ merge_rec key (drop i a) (drop j b)"
proof (induction key a b i j out rule: merge_laco.induct)
  case (1 key a b i j out)
  show ?case
  proof (cases "i < length a \<and> j < length b")
    case False
    with "1.prems" have eq: "i' = i" "j' = j" "out' = out"
      by (simp_all add: merge_laco.simps [of key a b i j out])
    from False have "drop i a = [] \<or> drop j b = []" by auto
    then have "merge_rec key (drop i a) (drop j b) = drop i a @ drop j b"
      by (cases "drop i a") auto
    with eq show ?thesis by simp
  next
    case True
    then have da: "drop i a = a ! i # drop (i + 1) a" and db: "drop j b = b ! j # drop (j + 1) b"
      by (simp_all add: Cons_nth_drop_Suc)
    show ?thesis
    proof (cases "key (a ! i) \<le> key (b ! j)")
      case le: True
      with True "1.prems" have "merge_laco key a b (i + 1) j (out @ [a ! i]) = (i', j', out')"
        by (simp add: merge_laco.simps [of key a b i j out])
      from "1.IH"(1) [OF True le this]
      have "out' @ drop i' a @ drop j' b
              = (out @ [a ! i]) @ merge_rec key (drop (i + 1) a) (drop j b)" .
      also have "\<dots> = out @ merge_rec key (drop i a) (drop j b)"
        using le by (simp add: da) (simp add: db)
      finally show ?thesis .
    next
      case gt: False
      with True "1.prems" have "merge_laco key a b i (j + 1) (out @ [b ! j]) = (i', j', out')"
        by (simp add: merge_laco.simps [of key a b i j out])
      from "1.IH"(2) [OF True gt this]
      have "out' @ drop i' a @ drop j' b
              = (out @ [b ! j]) @ merge_rec key (drop i a) (drop (j + 1) b)" .
      also have "\<dots> = out @ merge_rec key (drop i a) (drop j b)"
        using gt by (simp add: db) (simp add: da)
      finally show ?thesis .
    qed
  qed
qed

lemma merge_eq_merge_rec: "merge a b key = merge_rec key a b"
proof -
  obtain i j out where r: "merge_laco key a b 0 0 [] = (i, j, out)"
    by (cases "merge_laco key a b 0 0 []") auto
  from merge_laco_rec [OF r] r show ?thesis by (simp add: merge_def)
qed

lemma mset_merge_rec: "mset (merge_rec key xs ys) = mset xs + mset ys"
  by (induction key xs ys rule: merge_rec.induct) auto

lemma set_merge_rec: "set (merge_rec key xs ys) = set xs \<union> set ys"
  by (induction key xs ys rule: merge_rec.induct) auto

lemma sorted_merge_rec:
  "sorted (map key xs) \<Longrightarrow> sorted (map key ys) \<Longrightarrow> sorted (map key (merge_rec key xs ys))"
  by (induction key xs ys rule: merge_rec.induct) (auto simp: set_merge_rec)

lemma filter_merge_rec:
  "sorted (map key xs) \<Longrightarrow>
     filter (\<lambda>x. key x = v) (merge_rec key xs ys)
       = filter (\<lambda>x. key x = v) xs @ filter (\<lambda>x. key x = v) ys"
proof (induction key xs ys rule: merge_rec.induct)
  case (1 key ys)
  show ?case by simp
next
  case (2 key xs)
  show ?case by simp
next
  case (3 key x xs y ys)
  show ?case
  proof (cases "key x \<le> key y")
    case True
    with 3 show ?thesis by simp
  next
    case False
    then have "key y < key x" by simp
    with "3.prems" have "\<forall>z \<in> set (x # xs). key z \<noteq> key y" by auto
    then have none: "key y = v \<Longrightarrow> filter (\<lambda>z. key z = v) (x # xs) = []"
      by (auto simp: filter_empty_conv)
    from False "3.IH"(2) "3.prems"
    have ih: "filter (\<lambda>x. key x = v) (merge_rec key (x # xs) ys)
                = filter (\<lambda>x. key x = v) (x # xs) @ filter (\<lambda>x. key x = v) ys"
      by simp
    show ?thesis
    proof (cases "key y = v")
      case True
      from none [OF True] ih True False show ?thesis by simp
    next
      case ne: False
      with ih False show ?thesis by simp
    qed
  qed
qed

lemma mset_merge_sort: "mset (merge_sort itens key) = mset itens"
proof (induction itens key rule: merge_sort.induct)
  case (1 itens key)
  show ?case
  proof (cases "length itens \<le> 1")
    case True
    then show ?thesis by (simp add: merge_sort_short)
  next
    case False
    have "mset (merge_sort itens key)
            = mset (merge_sort (take (length itens div 2) itens) key)
              + mset (merge_sort (drop (length itens div 2) itens) key)"
      using False by (simp add: merge_sort_long merge_eq_merge_rec mset_merge_rec)
    also have "\<dots> = mset (take (length itens div 2) itens) + mset (drop (length itens div 2) itens)"
      using "1.IH" False by simp
    also have "\<dots> = mset itens"
      by (simp flip: mset_append)
    finally show ?thesis .
  qed
qed

lemma sorted_merge_sort: "sorted (map key (merge_sort itens key))"
proof (induction itens key rule: merge_sort.induct)
  case (1 itens key)
  show ?case
  proof (cases "length itens \<le> 1")
    case True
    then have "length (map key itens) \<le> 1" by simp
    then have "sorted (map key itens)" by (cases "map key itens") (auto simp: le_Suc_eq)
    with True show ?thesis by (simp add: merge_sort_short)
  next
    case False
    with "1.IH" show ?thesis
      by (simp add: merge_sort_long merge_eq_merge_rec sorted_merge_rec)
  qed
qed

lemma filter_merge_sort:
  "filter (\<lambda>x. key x = v) (merge_sort itens key) = filter (\<lambda>x. key x = v) itens"
proof (induction itens key rule: merge_sort.induct)
  case (1 itens key)
  show ?case
  proof (cases "length itens \<le> 1")
    case True
    then show ?thesis by (simp add: merge_sort_short)
  next
    case False
    have "filter (\<lambda>x. key x = v) (merge_sort itens key)
            = filter (\<lambda>x. key x = v) (merge_sort (take (length itens div 2) itens) key)
              @ filter (\<lambda>x. key x = v) (merge_sort (drop (length itens div 2) itens) key)"
      using False
      by (simp add: merge_sort_long merge_eq_merge_rec filter_merge_rec sorted_merge_sort)
    also have "\<dots> = filter (\<lambda>x. key x = v) (take (length itens div 2) itens)
                       @ filter (\<lambda>x. key x = v) (drop (length itens div 2) itens)"
      using "1.IH" False by simp
    also have "\<dots> = filter (\<lambda>x. key x = v) itens"
      by (simp flip: filter_append)
    finally show ?thesis .
  qed
qed

lemma merge_sort_eq_sort_key: "merge_sort itens key = sort_key key itens"
proof (rule sym, rule properties_for_sort_key)
  show "mset (merge_sort itens key) = mset itens" by (rule mset_merge_sort)
next
  fix k
  have "filter (\<lambda>x. key x = key k) (merge_sort itens key) = filter (\<lambda>x. key x = key k) itens"
    by (rule filter_merge_sort)
  then show "filter (\<lambda>x. key k = key x) (merge_sort itens key) = filter (\<lambda>x. key k = key x) itens"
    by (simp add: eq_commute)
next
  show "sorted (map key (merge_sort itens key))" by (rule sorted_merge_sort)
qed


section \<open>Lemmas on the quick sort\<close>

lemma quick_sort_short: "length itens \<le> 1 \<Longrightarrow> quick_sort draws n itens key = (itens, n)"
  by (simp add: quick_sort.simps [of draws n itens key])

lemma quick_sort_long:
  assumes "\<not> length itens \<le> 1"
  shows "\<exists>p \<in> set itens. \<exists>n1 n2.
           fst (quick_sort draws n itens key)
             = fst (quick_sort draws n1 (filter (\<lambda>x. key x < key p) itens) key)
               @ filter (\<lambda>x. key x = key p) itens
               @ fst (quick_sort draws n2 (filter (\<lambda>x. key p < key x) itens) key)"
proof -
  define p where "p = fst (random_choice draws n itens)"
  from assms have "itens \<noteq> []" by auto
  then have "p \<in> set itens" by (simp add: p_def random_choice_def)
  moreover have "fst (quick_sort draws n itens key)
             = fst (quick_sort draws (snd (random_choice draws n itens))
                      (filter (\<lambda>x. key x < key p) itens) key)
               @ filter (\<lambda>x. key x = key p) itens
               @ fst (quick_sort draws
                       (snd (quick_sort draws (snd (random_choice draws n itens))
                              (filter (\<lambda>x. key x < key p) itens) key))
                       (filter (\<lambda>x. key p < key x) itens) key)"
    using assms
    by (simp add: quick_sort.simps [of draws n itens key] Let_def case_prod_beta p_def)
  ultimately show ?thesis by blast
qed

lemma length_filter_pivot:
  assumes "p \<in> set itens"
  shows "length (filter (\<lambda>x. key x < key p) itens) < length itens"
    and "length (filter (\<lambda>x. (key p :: 'k::linorder) < key x) itens) < length itens"
proof -
  have "\<not> key p < key p" by simp
  with assms show "length (filter (\<lambda>x. key x < key p) itens) < length itens"
    by (rule length_filter_less)
  have "\<not> key p < key p" by simp
  with assms show "length (filter (\<lambda>x. key p < key x) itens) < length itens"
    by (rule length_filter_less)
qed

lemma mset_three_way:
  "mset (filter (\<lambda>x. key x < v) xs) + mset (filter (\<lambda>x. key x = v) xs)
     + mset (filter (\<lambda>x. (v :: 'k::linorder) < key x) xs) = mset xs"
  by (induction xs) auto

lemma filter_three_way:
  "filter (\<lambda>x. key x = w) (filter (\<lambda>x. key x < v) xs)
     @ filter (\<lambda>x. key x = w) (filter (\<lambda>x. key x = v) xs)
     @ filter (\<lambda>x. key x = w) (filter (\<lambda>x. (v :: 'k::linorder) < key x) xs)
   = filter (\<lambda>x. key x = w) xs"
proof -
  consider (lt) "w < v" | (eq) "w = v" | (gt) "v < w" by (rule linorder_cases)
  then show ?thesis
  proof cases
    case lt
    then have "filter (\<lambda>x. key x = w) (filter (\<lambda>x. key x < v) xs) = filter (\<lambda>x. key x = w) xs"
      and "filter (\<lambda>x. key x = w) (filter (\<lambda>x. key x = v) xs) = []"
      and "filter (\<lambda>x. key x = w) (filter (\<lambda>x. v < key x) xs) = []"
      by (auto simp: filter_empty_conv intro: filter_cong)
    then show ?thesis by simp
  next
    case eq
    then have "filter (\<lambda>x. key x = w) (filter (\<lambda>x. key x < v) xs) = []"
      and "filter (\<lambda>x. key x = w) (filter (\<lambda>x. key x = v) xs) = filter (\<lambda>x. key x = w) xs"
      and "filter (\<lambda>x. key x = w) (filter (\<lambda>x. v < key x) xs) = []"
      by (auto simp: filter_empty_conv intro: filter_cong)
    then show ?thesis by simp
  next
    case gt
    then have "filter (\<lambda>x. key x = w) (filter (\<lambda>x. key x < v) xs) = []"
      and "filter (\<lambda>x. key x = w) (filter (\<lambda>x. key x = v) xs) = []"
      and "filter (\<lambda>x. key x = w) (filter (\<lambda>x. v < key x) xs) = filter (\<lambda>x. key x = w) xs"
      by (auto simp: filter_empty_conv intro: filter_cong)
    then show ?thesis by simp
  qed
qed

lemma mset_quick_sort: "mset (fst (quick_sort draws n itens key)) = mset itens"
proof (induction "length itens" arbitrary: itens n rule: less_induct)
  case less
  show ?case
  proof (cases "length itens \<le> 1")
    case True
    then show ?thesis by (simp add: quick_sort_short)
  next
    case False
    from quick_sort_long [OF False, of draws n key] obtain p n1 n2 where
      p: "p \<in> set itens" and
      eq: "fst (quick_sort draws n itens key)
             = fst (quick_sort draws n1 (filter (\<lambda>x. key x < key p) itens) key)
               @ filter (\<lambda>x. key x = key p) itens
               @ fst (quick_sort draws n2 (filter (\<lambda>x. key p < key x) itens) key)"
      by blast
    have l1: "length (filter (\<lambda>x. key x < key p) itens) < length itens"
      and l2: "length (filter (\<lambda>x. key p < key x) itens) < length itens"
      using p by (rule length_filter_pivot)+
    have "mset (fst (quick_sort draws n itens key))
            = mset (filter (\<lambda>x. key x < key p) itens) + mset (filter (\<lambda>x. key x = key p) itens)
              + mset (filter (\<lambda>x. key p < key x) itens)"
      unfolding eq mset_append less [OF l1] less [OF l2] by (simp add: add.assoc)
    then show ?thesis
      by (simp only: mset_three_way)
  qed
qed

lemma set_quick_sort: "set (fst (quick_sort draws n itens key)) = set itens"
  using mset_quick_sort [of draws n itens key] by (rule mset_eq_setD)

lemma sorted_quick_sort: "sorted (map key (fst (quick_sort draws n itens key)))"
proof (induction "length itens" arbitrary: itens n rule: less_induct)
  case less
  show ?case
  proof (cases "length itens \<le> 1")
    case True
    then have "length (map key itens) \<le> 1" by simp
    then have "sorted (map key itens)" by (cases "map key itens") (auto simp: le_Suc_eq)
    with True show ?thesis by (simp add: quick_sort_short)
  next
    case False
    from quick_sort_long [OF False, of draws n key] obtain p n1 n2 where
      p: "p \<in> set itens" and
      eq: "fst (quick_sort draws n itens key)
             = fst (quick_sort draws n1 (filter (\<lambda>x. key x < key p) itens) key)
               @ filter (\<lambda>x. key x = key p) itens
               @ fst (quick_sort draws n2 (filter (\<lambda>x. key p < key x) itens) key)"
      by blast
    have "sorted (map key (filter (\<lambda>x. key x = key p) itens))"
      by (induction itens) auto
    moreover have l1: "length (filter (\<lambda>x. key x < key p) itens) < length itens"
      and l2: "length (filter (\<lambda>x. key p < key x) itens) < length itens"
      using p by (rule length_filter_pivot)+
    note less [OF l1, of n1] less [OF l2, of n2]
    ultimately show ?thesis
      unfolding eq by (auto simp: sorted_append set_quick_sort)
  qed
qed

lemma filter_quick_sort:
  "filter (\<lambda>x. key x = v) (fst (quick_sort draws n itens key)) = filter (\<lambda>x. key x = v) itens"
proof (induction "length itens" arbitrary: itens n rule: less_induct)
  case less
  show ?case
  proof (cases "length itens \<le> 1")
    case True
    then show ?thesis by (simp add: quick_sort_short)
  next
    case False
    from quick_sort_long [OF False, of draws n key] obtain p n1 n2 where
      p: "p \<in> set itens" and
      eq: "fst (quick_sort draws n itens key)
             = fst (quick_sort draws n1 (filter (\<lambda>x. key x < key p) itens) key)
               @ filter (\<lambda>x. key x = key p) itens
               @ fst (quick_sort draws n2 (filter (\<lambda>x. key p < key x) itens) key)"
      by blast
    have "filter (\<lambda>x. key x = v) (fst (quick_sort draws n itens key))
            = filter (\<lambda>x. key x = v) (filter (\<lambda>x. key x < key p) itens)
              @ filter (\<lambda>x. key x = v) (filter (\<lambda>x. key x = key p) itens)
              @ filter (\<lambda>x. key x = v) (filter (\<lambda>x. key p < key x) itens)"
      unfolding eq filter_append
        less [OF length_filter_pivot(1) [OF p, of key]]
        less [OF length_filter_pivot(2) [OF p, of key]]
      by (rule refl)
    also have "\<dots> = filter (\<lambda>x. key x = v) itens"
      by (rule filter_three_way)
    finally show ?thesis .
  qed
qed

lemma quick_sort_eq_sort_key: "fst (quick_sort draws n itens key) = sort_key key itens"
proof (rule sym, rule properties_for_sort_key)
  show "mset (fst (quick_sort draws n itens key)) = mset itens" by (rule mset_quick_sort)
next
  fix k
  have "filter (\<lambda>x. key x = key k) (fst (quick_sort draws n itens key))
          = filter (\<lambda>x. key x = key k) itens"
    by (rule filter_quick_sort)
  then show "filter (\<lambda>x. key k = key x) (fst (quick_sort draws n itens key))
               = filter (\<lambda>x. key k = key x) itens"
    by (simp add: eq_commute)
next
  show "sorted (map key (fst (quick_sort draws n itens key)))" by (rule sorted_quick_sort)
qed


section \<open>Order of occurrences in a filtered list\<close>

lemma filter_eq_append_ConsD:
  "filter P ys = as @ a # rest \<Longrightarrow> \<exists>us vs. ys = us @ a # vs \<and> filter P vs = rest"
proof (induction ys arbitrary: as)
  case Nil
  then show ?case by simp
next
  case (Cons y ys)
  show ?case
  proof (cases "P y")
    case False
    with Cons.prems have "filter P ys = as @ a # rest" by simp
    from Cons.IH [OF this] obtain us vs where "ys = us @ a # vs" "filter P vs = rest" by blast
    then have "y # ys = (y # us) @ a # vs \<and> filter P vs = rest" by simp
    then show ?thesis by blast
  next
    case True
    show ?thesis
    proof (cases as)
      case Nil
      with True Cons.prems have "y # ys = [] @ a # ys \<and> filter P ys = rest" by simp
      then show ?thesis by blast
    next
      case (Cons a' as')
      with True Cons.prems have "filter P ys = as' @ a # rest" by simp
      from Cons.IH [OF this] obtain us vs where "ys = us @ a # vs" "filter P vs = rest" by blast
      then have "y # ys = (y # us) @ a # vs \<and> filter P vs = rest" by simp
      then show ?thesis by blast
    qed
  qed
qed

lemma filter_keeps_order:
  assumes "filter P ys = filter P (us @ a # vs @ b # ws)" and "P a" and "P b"
  shows "\<exists>us' vs' ws'. ys = us' @ a # vs' @ b # ws'"
proof -
  from assms have "filter P ys = filter P us @ a # (filter P vs @ b # filter P ws)" by simp
  from filter_eq_append_ConsD [OF this] obtain us' r where
    ys: "ys = us' @ a # r" and r: "filter P r = filter P vs @ b # filter P ws" by blast
  from filter_eq_append_ConsD [OF r] obtain vs' ws' where "r = vs' @ b # ws'" by blast
  with ys show ?thesis by blast
qed


section \<open>Lemmas on the binary search\<close>

lemma busca_laco_done: "\<not> lo \<le> hi \<Longrightarrow> busca_laco xs nome lo hi = ([], Inr None)"
  by (simp add: busca_laco.simps [of xs nome lo hi])

lemma mid_bounds:
  fixes lo hi :: int
  assumes "lo \<le> hi"
  shows "lo \<le> (lo + hi) div 2" and "(lo + hi) div 2 \<le> hi"
  using assms by linarith+

lemma busca_laco_step:
  assumes "lo \<le> hi" and "0 \<le> lo" and "hi < int (length xs)"
  shows "busca_laco xs nome lo hi =
     (if lower (insumo (xs ! nat ((lo + hi) div 2))) = nome
        then ([(lo + hi) div 2], Inr (Some (xs ! nat ((lo + hi) div 2))))
      else if lower (insumo (xs ! nat ((lo + hi) div 2))) < nome
        then ((lo + hi) div 2 # fst (busca_laco xs nome ((lo + hi) div 2 + 1) hi),
              snd (busca_laco xs nome ((lo + hi) div 2 + 1) hi))
      else ((lo + hi) div 2 # fst (busca_laco xs nome lo ((lo + hi) div 2 - 1)),
            snd (busca_laco xs nome lo ((lo + hi) div 2 - 1))))"
proof -
  from mid_bounds [OF assms(1)] assms(2,3)
  have "0 \<le> (lo + hi) div 2" and "(lo + hi) div 2 < int (length xs)" by linarith+
  then have "py_getitem xs ((lo + hi) div 2) = Inr (xs ! nat ((lo + hi) div 2))"
    by (simp add: py_getitem_def)
  with assms(1) show ?thesis
    by (simp add: busca_laco.simps [of xs nome lo hi] Let_def case_prod_beta)
qed

lemma busca_laco_safe:
  "0 \<le> lo \<Longrightarrow> hi < int (length xs) \<Longrightarrow>
     (\<exists>r. snd (busca_laco xs nome lo hi) = Inr r)
     \<and> (\<forall>i \<in> set (fst (busca_laco xs nome lo hi)). lo \<le> i \<and> i \<le> hi)
     \<and> length (fst (busca_laco xs nome lo hi)) \<le> nat (hi - lo + 1)"
proof (induction "nat (hi - lo + 1)" arbitrary: lo hi rule: less_induct)
  case less
  show ?case
  proof (cases "lo \<le> hi")
    case False
    then show ?thesis by (simp add: busca_laco_done)
  next
    case True
    let ?mid = "(lo + hi) div 2"
    note mb = mid_bounds [OF True]
    note step = busca_laco_step [OF True less.prems, of nome]
    consider (eq) "lower (insumo (xs ! nat ?mid)) = nome"
      | (lt) "lower (insumo (xs ! nat ?mid)) \<noteq> nome" "lower (insumo (xs ! nat ?mid)) < nome"
      | (gt) "lower (insumo (xs ! nat ?mid)) \<noteq> nome" "\<not> lower (insumo (xs ! nat ?mid)) < nome"
      by blast
    then show ?thesis
    proof cases
      case eq
      with step mb True show ?thesis by simp
    next
      case lt
      have "nat (hi - (?mid + 1) + 1) < nat (hi - lo + 1)" using mb True by linarith
      moreover have "0 \<le> ?mid + 1" using mb less.prems by linarith
      ultimately have ih: "(\<exists>r. snd (busca_laco xs nome (?mid + 1) hi) = Inr r)
         \<and> (\<forall>i \<in> set (fst (busca_laco xs nome (?mid + 1) hi)). ?mid + 1 \<le> i \<and> i \<le> hi)
         \<and> length (fst (busca_laco xs nome (?mid + 1) hi)) \<le> nat (hi - (?mid + 1) + 1)"
        using less.prems(2) by (rule less.hyps)
      have eq: "busca_laco xs nome lo hi
                  = (?mid # fst (busca_laco xs nome (?mid + 1) hi),
                     snd (busca_laco xs nome (?mid + 1) hi))"
        using step lt by simp
      have "\<forall>i \<in> set (fst (busca_laco xs nome (?mid + 1) hi)). lo \<le> i \<and> i \<le> hi"
        using ih mb by fastforce
      moreover have "Suc (length (fst (busca_laco xs nome (?mid + 1) hi))) \<le> nat (hi - lo + 1)"
        using ih mb True by linarith
      ultimately show ?thesis
        unfolding eq using ih mb by simp
    next
      case gt
      have "nat (?mid - 1 - lo + 1) < nat (hi - lo + 1)" using mb True by linarith
      moreover have "?mid - 1 < int (length xs)" using mb less.prems by linarith
      ultimately have ih: "(\<exists>r. snd (busca_laco xs nome lo (?mid - 1)) = Inr r)
         \<and> (\<forall>i \<in> set (fst (busca_laco xs nome lo (?mid - 1))). lo \<le> i \<and> i \<le> ?mid - 1)
         \<and> length (fst (busca_laco xs nome lo (?mid - 1))) \<le> nat (?mid - 1 - lo + 1)"
        using less.prems(1) less.hyps by blast
      have eq: "busca_laco xs nome lo hi
                  = (?mid # fst (busca_laco xs nome lo (?mid - 1)),
                     snd (busca_laco xs nome lo (?mid - 1)))"
        using step gt by simp
      have "\<forall>i \<in> set (fst (busca_laco xs nome lo (?mid - 1))). lo \<le> i \<and> i \<le> hi"
        using ih mb by fastforce
      moreover have "Suc (length (fst (busca_laco xs nome lo (?mid - 1)))) \<le> nat (hi - lo + 1)"
        using ih mb True by linarith
      ultimately show ?thesis
        unfolding eq using ih mb by simp
    qed
  qed
qed

lemma busca_laco_found:
  "0 \<le> lo \<Longrightarrow> hi < int (length xs) \<Longrightarrow> snd (busca_laco xs nome lo hi) = Inr (Some r) \<Longrightarrow>
     r \<in> set xs \<and> lower (insumo r) = nome"
proof (induction "nat (hi - lo + 1)" arbitrary: lo hi rule: less_induct)
  case less
  show ?case
  proof (cases "lo \<le> hi")
    case False
    with less.prems(3) show ?thesis by (simp add: busca_laco_done)
  next
    case True
    let ?mid = "(lo + hi) div 2"
    note mb = mid_bounds [OF True]
    note step = busca_laco_step [OF True less.prems(1,2), of nome]
    have inb: "nat ?mid < length xs" using mb less.prems(1,2) by linarith
    consider (eq) "lower (insumo (xs ! nat ?mid)) = nome"
      | (lt) "lower (insumo (xs ! nat ?mid)) \<noteq> nome" "lower (insumo (xs ! nat ?mid)) < nome"
      | (gt) "lower (insumo (xs ! nat ?mid)) \<noteq> nome" "\<not> lower (insumo (xs ! nat ?mid)) < nome"
      by blast
    then show ?thesis
    proof cases
      case eq
      with step less.prems(3) have "r = xs ! nat ?mid" by simp
      with eq inb show ?thesis by simp
    next
      case lt
      have "nat (hi - (?mid + 1) + 1) < nat (hi - lo + 1)" using mb True by linarith
      moreover have "0 \<le> ?mid + 1" using mb less.prems by linarith
      moreover have "snd (busca_laco xs nome (?mid + 1) hi) = Inr (Some r)"
        using step lt less.prems(3) by simp
      ultimately show ?thesis using less.prems(2) less.hyps by blast
    next
      case gt
      have "nat (?mid - 1 - lo + 1) < nat (hi - lo + 1)" using mb True by linarith
      moreover have "?mid - 1 < int (length xs)" using mb less.prems by linarith
      moreover have "snd (busca_laco xs nome lo (?mid - 1)) = Inr (Some r)"
        using step gt less.prems(3) by simp
      ultimately show ?thesis using less.prems(1) less.hyps by blast
    qed
  qed
qed

lemma busca_laco_absent:
  assumes srt: "sorted (map (\<lambda>x. lower (insumo x)) xs)"
  shows "0 \<le> lo \<Longrightarrow> hi < int (length xs) \<Longrightarrow> snd (busca_laco xs nome lo hi) = Inr None \<Longrightarrow>
     lo \<le> i \<Longrightarrow> i \<le> hi \<Longrightarrow> lower (insumo (xs ! nat i)) \<noteq> nome"
proof (induction "nat (hi - lo + 1)" arbitrary: lo hi rule: less_induct)
  case less
  from less.prems have True: "lo \<le> hi" by linarith
  let ?mid = "(lo + hi) div 2"
  note mb = mid_bounds [OF True]
  note step = busca_laco_step [OF True less.prems(1,2), of nome]
  have inb: "nat ?mid < length xs" "nat i < length xs" using mb less.prems by linarith+
  have mono: "\<And>p q. p \<le> q \<Longrightarrow> q < length xs \<Longrightarrow> lower (insumo (xs ! p)) \<le> lower (insumo (xs ! q))"
    using sorted_nth_mono [OF srt] by simp
  consider (eq) "lower (insumo (xs ! nat ?mid)) = nome"
    | (lt) "lower (insumo (xs ! nat ?mid)) \<noteq> nome" "lower (insumo (xs ! nat ?mid)) < nome"
    | (gt) "lower (insumo (xs ! nat ?mid)) \<noteq> nome" "\<not> lower (insumo (xs ! nat ?mid)) < nome"
    by blast
  then show ?case
  proof cases
    case eq
    with step less.prems(3) show ?thesis by simp
  next
    case lt
    show ?thesis
    proof (cases "i \<le> ?mid")
      case le: True
      then have "nat i \<le> nat ?mid" by simp
      from mono [OF this inb(1)] lt(2) show ?thesis by auto
    next
      case False
      then have "?mid + 1 \<le> i" by simp
      moreover have "nat (hi - (?mid + 1) + 1) < nat (hi - lo + 1)" using mb True by linarith
      moreover have "0 \<le> ?mid + 1" using mb less.prems by linarith
      moreover have "snd (busca_laco xs nome (?mid + 1) hi) = Inr None"
        using step lt less.prems(3) by simp
      ultimately show ?thesis using less.prems(2,5) less.hyps by blast
    qed
  next
    case gt
    show ?thesis
    proof (cases "?mid \<le> i")
      case ge: True
      then have "nat ?mid \<le> nat i" by simp
      from mono [OF this inb(2)] gt show ?thesis by auto
    next
      case False
      then have "i \<le> ?mid - 1" by simp
      moreover have "nat (?mid - 1 - lo + 1) < nat (hi - lo + 1)" using mb True by linarith
      moreover have "?mid - 1 < int (length xs)" using mb less.prems by linarith
      moreover have "snd (busca_laco xs nome lo (?mid - 1)) = Inr None"
        using step gt less.prems(3) by simp
      ultimately show ?thesis using less.prems(1,4) less.hyps by blast
    qed
  qed
qed


section \<open>The claims\<close>

text \<open>
  C1. For every list \<open>S\<close> of records, every key function \<open>k\<close> into a linear order
  and every behaviour of the random source, \<^verbatim>\<open>merge_sort\<close> and \<^verbatim>\<open>quick_sort\<close> return a
  permutation of \<open>S\<close> (the same multiset of elements, hence the same length) whose
  keys are in non-decreasing order.
\<close>

theorem sorts_permutation_sorted:
  "mset (merge_sort S k) = mset S \<and> length (merge_sort S k) = length S
   \<and> sorted (map k (merge_sort S k))
   \<and> mset (fst (quick_sort draws n S k)) = mset S
   \<and> length (fst (quick_sort draws n S k)) = length S
   \<and> sorted (map k (fst (quick_sort draws n S k)))"
proof (intro conjI)
  show "mset (merge_sort S k) = mset S" by (rule mset_merge_sort)
  then show "length (merge_sort S k) = length S" by (rule mset_eq_length)
  show "sorted (map k (merge_sort S k))" by (rule sorted_merge_sort)
  show "mset (fst (quick_sort draws n S k)) = mset S" by (rule mset_quick_sort)
  then show "length (fst (quick_sort draws n S k)) = length S" by (rule mset_eq_length)
  show "sorted (map k (fst (quick_sort draws n S k)))" by (rule sorted_quick_sort)
qed

text \<open>
  C2. \<^verbatim>\<open>merge_sort\<close> is stable: for every key value the elements carrying it come out in
  their input order; so when an occurrence of \<open>a\<close> stands before an occurrence of
  \<open>b\<close> in \<open>S\<close> and both have the same key, \<open>a\<close> stands before \<open>b\<close> in the result.
  In the merge step a tie between the two front elements takes the one of the left
  list.
\<close>

theorem merge_sort_stable:
  "filter (\<lambda>x. k x = v) (merge_sort S k) = filter (\<lambda>x. k x = v) S
   \<and> (S = us @ a # vs @ b # ws \<and> k a = k b \<longrightarrow>
        (\<exists>us' vs' ws'. merge_sort S k = us' @ a # vs' @ b # ws'))
   \<and> (k x = k y \<longrightarrow> merge (x # xs) (y # ys) k = x # merge xs (y # ys) k)"
proof (intro conjI impI)
  show "filter (\<lambda>x. k x = v) (merge_sort S k) = filter (\<lambda>x. k x = v) S"
    by (rule filter_merge_sort)
next
  assume h: "S = us @ a # vs @ b # ws \<and> k a = k b"
  then have S: "S = us @ a # vs @ b # ws" and kb: "k b = k a" by simp_all
  have "filter (\<lambda>x. k x = k a) (merge_sort S k) = filter (\<lambda>x. k x = k a) S"
    by (rule filter_merge_sort)
  also have "\<dots> = filter (\<lambda>x. k x = k a) (us @ a # vs @ b # ws)"
    using S by (rule arg_cong)
  finally show "\<exists>us' vs' ws'. merge_sort S k = us' @ a # vs' @ b # ws'"
    using refl kb by (rule filter_keeps_order)
next
  assume "k x = k y"
  then show "merge (x # xs) (y # ys) k = x # merge xs (y # ys) k"
    by (simp add: merge_eq_merge_rec)
qed

theorem merge_sort_stable_witness:
  "[\<lparr>insumo = ''X'', quantidade = 5, exame = ''E1'', validade = None\<rparr>,
    \<lparr>insumo = ''A'', quantidade = 5, exame = ''E2'', validade = None\<rparr>,
    \<lparr>insumo = ''M'', quantidade = 3, exame = ''E1'', validade = None\<rparr>]
     = [] @ \<lparr>insumo = ''X'', quantidade = 5, exame = ''E1'', validade = None\<rparr> # []
          @ \<lparr>insumo = ''A'', quantidade = 5, exame = ''E2'', validade = None\<rparr>
          # [\<lparr>insumo = ''M'', quantidade = 3, exame = ''E1'', validade = None\<rparr>]
   \<and> quantidade \<lparr>insumo = ''X'', quantidade = 5, exame = ''E1'', validade = None\<rparr>
       = quantidade \<lparr>insumo = ''A'', quantidade = 5, exame = ''E2'', validade = None\<rparr>
   \<and> (\<exists>us' vs' ws'.
        merge_sort
          [\<lparr>insumo = ''X'', quantidade = 5, exame = ''E1'', validade = None\<rparr>,
           \<lparr>insumo = ''A'', quantidade = 5, exame = ''E2'', validade = None\<rparr>,
           \<lparr>insumo = ''M'', quantidade = 3, exame = ''E1'', validade = None\<rparr>] quantidade
        = us' @ \<lparr>insumo = ''X'', quantidade = 5, exame = ''E1'', validade = None\<rparr> # vs'
            @ \<lparr>insumo = ''A'', quantidade = 5, exame = ''E2'', validade = None\<rparr> # ws')
   \<and> merge [\<lparr>insumo = ''X'', quantidade = 5, exame = ''E1'', validade = None\<rparr>]
        [\<lparr>insumo = ''A'', quantidade = 5, exame = ''E2'', validade = None\<rparr>] quantidade
      = \<lparr>insumo = ''X'', quantidade = 5, exame = ''E1'', validade = None\<rparr>
        # merge [] [\<lparr>insumo = ''A'', quantidade = 5, exame = ''E2'', validade = None\<rparr>] quantidade"
  using merge_sort_stable
    [where k = quantidade and v = 5
       and S = "[\<lparr>insumo = ''X'', quantidade = 5, exame = ''E1'', validade = None\<rparr>,
                 \<lparr>insumo = ''A'', quantidade = 5, exame = ''E2'', validade = None\<rparr>,
                 \<lparr>insumo = ''M'', quantidade = 3, exame = ''E1'', validade = None\<rparr>]"
       and us = "[]" and vs = "[]"
       and a = "\<lparr>insumo = ''X'', quantidade = 5, exame = ''E1'', validade = None\<rparr>"
       and b = "\<lparr>insumo = ''A'', quantidade = 5, exame = ''E2'', validade = None\<rparr>"
       and ws = "[\<lparr>insumo = ''M'', quantidade = 3, exame = ''E1'', validade = None\<rparr>]"
       and x = "\<lparr>insumo = ''X'', quantidade = 5, exame = ''E1'', validade = None\<rparr>"
       and y = "\<lparr>insumo = ''A'', quantidade = 5, exame = ''E2'', validade = None\<rparr>"
       and xs = "[]" and ys = "[]"]
  by simp

text \<open>
  C3. On a list whose keys are already in non-decreasing order, \<^verbatim>\<open>merge_sort\<close> and
  \<^verbatim>\<open>quick_sort\<close> (whatever the random source does) return the list itself, element
  for element.
\<close>

theorem sort_sorted_input_unchanged:
  "sorted (map k S) \<Longrightarrow> merge_sort S k = S \<and> fst (quick_sort draws n S k) = S"
  by (simp add: merge_sort_eq_sort_key quick_sort_eq_sort_key sort_key_id_if_sorted)

theorem sort_sorted_input_unchanged_witness:
  "sorted (map quantidade
     [\<lparr>insumo = ''Swab'', quantidade = 1, exame = ''PCR'', validade = None\<rparr>,
      \<lparr>insumo = ''Luva'', quantidade = 3, exame = ''PCR'', validade = Some 7\<rparr>,
      \<lparr>insumo = ''Agulha'', quantidade = 3, exame = ''PCR'', validade = None\<rparr>])
   \<and> merge_sort
     [\<lparr>insumo = ''Swab'', quantidade = 1, exame = ''PCR'', validade = None\<rparr>,
      \<lparr>insumo = ''Luva'', quantidade = 3, exame = ''PCR'', validade = Some 7\<rparr>,
      \<lparr>insumo = ''Agulha'', quantidade = 3, exame = ''PCR'', validade = None\<rparr>] quantidade
     = [\<lparr>insumo = ''Swab'', quantidade = 1, exame = ''PCR'', validade = None\<rparr>,
      \<lparr>insumo = ''Luva'', quantidade = 3, exame = ''PCR'', validade = Some 7\<rparr>,
      \<lparr>insumo = ''Agulha'', quantidade = 3, exame = ''PCR'', validade = None\<rparr>]
   \<and> fst (quick_sort (\<lambda>i. 2 * i + 1) 0
     [\<lparr>insumo = ''Swab'', quantidade = 1, exame = ''PCR'', validade = None\<rparr>,
      \<lparr>insumo = ''Luva'', quantidade = 3, exame = ''PCR'', validade = Some 7\<rparr>,
      \<lparr>insumo = ''Agulha'', quantidade = 3, exame = ''PCR'', validade = None\<rparr>] quantidade)
     = [\<lparr>insumo = ''Swab'', quantidade = 1, exame = ''PCR'', validade = None\<rparr>,
      \<lparr>insumo = ''Luva'', quantidade = 3, exame = ''PCR'', validade = Some 7\<rparr>,
      \<lparr>insumo = ''Agulha'', quantidade = 3, exame = ''PCR'', validade = None\<rparr>]"
proof -
  have srt: "sorted (map quantidade
     [\<lparr>insumo = ''Swab'', quantidade = 1, exame = ''PCR'', validade = None\<rparr>,
      \<lparr>insumo = ''Luva'', quantidade = 3, exame = ''PCR'', validade = Some 7\<rparr>,
      \<lparr>insumo = ''Agulha'', quantidade = 3, exame = ''PCR'', validade = None\<rparr>])"
    by simp
  from sort_sorted_input_unchanged [OF srt, of "\<lambda>i. 2 * i + 1" 0] srt
  show ?thesis by blast
qed

text \<open>
  C4. Linear search returns the first element, in input order, whose name equals the
  target when both are lowered: the result is absent exactly when no element matches,
  a returned element matches and stands after a prefix of non-matching elements, and
  the search of the empty list is absent.
\<close>

theorem busca_sequencial_first_match:
  "(busca_sequencial insumos nome = None \<longleftrightarrow>
      (\<forall>x \<in> set insumos. lower (insumo x) \<noteq> lower nome))
   \<and> (\<forall>item. busca_sequencial insumos nome = Some item \<longrightarrow>
        (\<exists>antes depois. insumos = antes @ item # depois \<and> lower (insumo item) = lower nome \<and>
           (\<forall>x \<in> set antes. lower (insumo x) \<noteq> lower nome)))
   \<and> busca_sequencial [] nome = None"
  using busca_sequencial_None [of insumos nome] busca_sequencial_Some [of insumos nome]
  by simp

theorem busca_sequencial_first_match_witness:
  "busca_sequencial
     [\<lparr>insumo = ''Swab est'' @ [CHR 0xE9] @ ''ril'', quantidade = 7, exame = ''PCR'', validade = None\<rparr>,
      \<lparr>insumo = CHR 0xC9 # ''TER'', quantidade = 1, exame = ''PCR'', validade = Some 10\<rparr>,
      \<lparr>insumo = CHR 0xE9 # ''ter'', quantidade = 2, exame = ''PCR'', validade = None\<rparr>] (CHR 0xE9 # ''ter'')
     = Some 
       \<lparr>insumo = CHR 0xC9 # ''TER'', quantidade = 1, exame = ''PCR'', validade = Some 10\<rparr>
   \<and> (\<exists>antes depois.
        [\<lparr>insumo = ''Swab est'' @ [CHR 0xE9] @ ''ril'', quantidade = 7, exame = ''PCR'', validade = None\<rparr>,
      \<lparr>insumo = CHR 0xC9 # ''TER'', quantidade = 1, exame = ''PCR'', validade = Some 10\<rparr>,
      \<lparr>insumo = CHR 0xE9 # ''ter'', quantidade = 2, exame = ''PCR'', validade = None\<rparr>]
        = antes @ 
       \<lparr>insumo = CHR 0xC9 # ''TER'', quantidade = 1, exame = ''PCR'', validade = Some 10\<rparr> # depois
        \<and> lower (insumo 
       \<lparr>insumo = CHR 0xC9 # ''TER'', quantidade = 1, exame = ''PCR'', validade = Some 10\<rparr>) = lower (CHR 0xE9 # ''ter'')
        \<and> list_all (\<lambda>x. lower (insumo x) \<noteq> lower (CHR 0xE9 # ''ter'')) antes)"
proof -
  let ?L = "[\<lparr>insumo = ''Swab est'' @ [CHR 0xE9] @ ''ril'', quantidade = 7, exame = ''PCR'', validade = None\<rparr>,
      \<lparr>insumo = CHR 0xC9 # ''TER'', quantidade = 1, exame = ''PCR'', validade = Some 10\<rparr>,
      \<lparr>insumo = CHR 0xE9 # ''ter'', quantidade = 2, exame = ''PCR'', validade = None\<rparr>]"
  have found: "busca_sequencial ?L (CHR 0xE9 # ''ter'') = Some 
       \<lparr>insumo = CHR 0xC9 # ''TER'', quantidade = 1, exame = ''PCR'', validade = Some 10\<rparr>"
    by code_simp
  from busca_sequencial_first_match [of ?L "(CHR 0xE9 # ''ter'')"] found
  have "\<exists>antes depois. ?L = antes @ 
       \<lparr>insumo = CHR 0xC9 # ''TER'', quantidade = 1, exame = ''PCR'', validade = Some 10\<rparr> # depois
          \<and> lower (insumo 
       \<lparr>insumo = CHR 0xC9 # ''TER'', quantidade = 1, exame = ''PCR'', validade = Some 10\<rparr>) = lower (CHR 0xE9 # ''ter'')
          \<and> (\<forall>x \<in> set antes. lower (insumo x) \<noteq> lower (CHR 0xE9 # ''ter''))"
    by blast
  then have "\<exists>antes depois. ?L = antes @ 
       \<lparr>insumo = CHR 0xC9 # ''TER'', quantidade = 1, exame = ''PCR'', validade = Some 10\<rparr> # depois
          \<and> lower (insumo 
       \<lparr>insumo = CHR 0xC9 # ''TER'', quantidade = 1, exame = ''PCR'', validade = Some 10\<rparr>) = lower (CHR 0xE9 # ''ter'')
          \<and> list_all (\<lambda>x. lower (insumo x) \<noteq> lower (CHR 0xE9 # ''ter'')) antes"
    by (simp add: list_all_iff)
  with found show ?thesis by blast
qed

text \<open>
  C5. On a list sorted ascending by lowered name, \<^verbatim>\<open>busca_binaria\<close> returns a record
  of the list whose lowered name equals the lowered target when there is one, and
  absent when there is none; on the empty list it returns absent, and raises nothing.
\<close>

theorem busca_binaria_sorted_correct:
  "sorted (map (\<lambda>x. lower (insumo x)) xs) \<Longrightarrow>
     ((\<exists>x \<in> set xs. lower (insumo x) = lower nome) \<longrightarrow>
        (\<exists>r. busca_binaria xs nome = Inr (Some r) \<and> r \<in> set xs \<and>
              lower (insumo r) = lower nome))
     \<and> ((\<forall>x \<in> set xs. lower (insumo x) \<noteq> lower nome) \<longrightarrow> busca_binaria xs nome = Inr None)
     \<and> busca_binaria [] nome = Inr None"
proof -
  assume srt: "sorted (map (\<lambda>x. lower (insumo x)) xs)"
  have lo: "(0::int) \<le> 0" and hi: "int (length xs) - 1 < int (length xs)" by simp_all
  from busca_laco_safe [OF lo hi, of "lower nome"]
  obtain res where res: "busca_binaria xs nome = Inr res"
    by (auto simp: busca_binaria_def)
  have found: "r \<in> set xs \<and> lower (insumo r) = lower nome" if "res = Some r" for r
    using busca_laco_found [OF lo hi, of "lower nome" r] res that
    by (simp add: busca_binaria_def)
  have absent: "\<forall>x \<in> set xs. lower (insumo x) \<noteq> lower nome" if "res = None"
  proof
    fix x
    assume "x \<in> set xs"
    then obtain p where p: "p < length xs" "x = xs ! p" by (auto simp: in_set_conv_nth)
    from res that have "snd (busca_laco xs (lower nome) 0 (int (length xs) - 1)) = Inr None"
      by (simp add: busca_binaria_def)
    from busca_laco_absent [OF srt lo hi this, of "int p"] p
    show "lower (insumo x) \<noteq> lower nome" by simp
  qed
  have empty: "busca_binaria [] nome = Inr None"
    by (simp add: busca_binaria_def busca_laco_done)
  show ?thesis
  proof (cases res)
    case None
    with absent res empty show ?thesis by simp
  next
    case (Some r)
    with found [OF Some] res empty show ?thesis by auto
  qed
qed

theorem busca_binaria_sorted_correct_witness:
  "sorted (map (\<lambda>x. lower (insumo x))
     [\<lparr>insumo = ''Agulha 25x7'', quantidade = 10, exame = ''PCR'', validade = None\<rparr>,
      \<lparr>insumo = ''Luva nitr'' @ [CHR 0xED] @ ''lica G'', quantidade = 20, exame = ''PCR'', validade = None\<rparr>,
      \<lparr>insumo = ''Luva nitr'' @ [CHR 0xED] @ ''lica M'', quantidade = 30, exame = ''PCR'', validade = None\<rparr>,
      \<lparr>insumo = ''Seringa 5ml'', quantidade = 40, exame = ''PCR'', validade = None\<rparr>,
      \<lparr>insumo = ''Swab est'' @ [CHR 0xE9] @ ''ril'', quantidade = 50, exame = ''PCR'', validade = None\<rparr>,
      \<lparr>insumo = ''Tubo Citrato 3,2%'', quantidade = 60, exame = ''PCR'', validade = None\<rparr>,
      \<lparr>insumo = ''Tubo EDTA 4ml'', quantidade = 70, exame = ''PCR'', validade = None\<rparr>])
   \<and> busca_binaria
     [\<lparr>insumo = ''Agulha 25x7'', quantidade = 10, exame = ''PCR'', validade = None\<rparr>,
      \<lparr>insumo = ''Luva nitr'' @ [CHR 0xED] @ ''lica G'', quantidade = 20, exame = ''PCR'', validade = None\<rparr>,
      \<lparr>insumo = ''Luva nitr'' @ [CHR 0xED] @ ''lica M'', quantidade = 30, exame = ''PCR'', validade = None\<rparr>,
      \<lparr>insumo = ''Seringa 5ml'', quantidade = 40, exame = ''PCR'', validade = None\<rparr>,
      \<lparr>insumo = ''Swab est'' @ [CHR 0xE9] @ ''ril'', quantidade = 50, exame = ''PCR'', validade = None\<rparr>,
      \<lparr>insumo = ''Tubo Citrato 3,2%'', quantidade = 60, exame = ''PCR'', validade = None\<rparr>,
      \<lparr>insumo = ''Tubo EDTA 4ml'', quantidade = 70, exame = ''PCR'', validade = None\<rparr>]
     (''LUVA NITR'' @ [CHR 0xCD] @ ''LICA G'')
      = Inr (Some 
        \<lparr>insumo = ''Luva nitr'' @ [CHR 0xED] @ ''lica G'', quantidade = 20, exame = ''PCR'', validade = None\<rparr>)
   \<and> busca_binaria
     [\<lparr>insumo = ''Agulha 25x7'', quantidade = 10, exame = ''PCR'', validade = None\<rparr>,
      \<lparr>insumo = ''Luva nitr'' @ [CHR 0xED] @ ''lica G'', quantidade = 20, exame = ''PCR'', validade = None\<rparr>,
      \<lparr>insumo = ''Luva nitr'' @ [CHR 0xED] @ ''lica M'', quantidade = 30, exame = ''PCR'', validade = None\<rparr>,
      \<lparr>insumo = ''Seringa 5ml'', quantidade = 40, exame = ''PCR'', validade = None\<rparr>,
      \<lparr>insumo = ''Swab est'' @ [CHR 0xE9] @ ''ril'', quantidade = 50, exame = ''PCR'', validade = None\<rparr>,
      \<lparr>insumo = ''Tubo Citrato 3,2%'', quantidade = 60, exame = ''PCR'', validade = None\<rparr>,
      \<lparr>insumo = ''Tubo EDTA 4ml'', quantidade = 70, exame = ''PCR'', validade = None\<rparr>]
     ''Luva nitrilica G''
      = Inr None"
proof -
  let ?L = "[\<lparr>insumo = ''Agulha 25x7'', quantidade = 10, exame = ''PCR'', validade = None\<rparr>,
      \<lparr>insumo = ''Luva nitr'' @ [CHR 0xED] @ ''lica G'', quantidade = 20, exame = ''PCR'', validade = None\<rparr>,
      \<lparr>insumo = ''Luva nitr'' @ [CHR 0xED] @ ''lica M'', quantidade = 30, exame = ''PCR'', validade = None\<rparr>,
      \<lparr>insumo = ''Seringa 5ml'', quantidade = 40, exame = ''PCR'', validade = None\<rparr>,
      \<lparr>insumo = ''Swab est'' @ [CHR 0xE9] @ ''ril'', quantidade = 50, exame = ''PCR'', validade = None\<rparr>,
      \<lparr>insumo = ''Tubo Citrato 3,2%'', quantidade = 60, exame = ''PCR'', validade = None\<rparr>,
      \<lparr>insumo = ''Tubo EDTA 4ml'', quantidade = 70, exame = ''PCR'', validade = None\<rparr>]"
  have srt: "sorted (map (\<lambda>x. lower (insumo x)) ?L)" by code_simp
  have ex: "\<exists>x \<in> set ?L. lower (insumo x) = lower (''LUVA NITR'' @ [CHR 0xCD] @ ''LICA G'')" by code_simp
  have nex: "\<forall>x \<in> set ?L. lower (insumo x) \<noteq> lower ''Luva nitrilica G''" by code_simp
  have names: "\<forall>r \<in> set ?L. lower (insumo r) = lower (''LUVA NITR'' @ [CHR 0xCD] @ ''LICA G'') \<longrightarrow>
      r = 
        \<lparr>insumo = ''Luva nitr'' @ [CHR 0xED] @ ''lica G'', quantidade = 20, exame = ''PCR'', validade = None\<rparr>"
    by code_simp
  from busca_binaria_sorted_correct [OF srt, of "(''LUVA NITR'' @ [CHR 0xCD] @ ''LICA G'')"] ex names
  have "busca_binaria ?L (''LUVA NITR'' @ [CHR 0xCD] @ ''LICA G'')
          = Inr (Some 
        \<lparr>insumo = ''Luva nitr'' @ [CHR 0xED] @ ''lica G'', quantidade = 20, exame = ''PCR'', validade = None\<rparr>)"
    by blast
  moreover from busca_binaria_sorted_correct [OF srt, of "''Luva nitrilica G''"] nex
  have "busca_binaria ?L ''Luva nitrilica G'' = Inr None" by blast
  ultimately show ?thesis using srt by blast
qed

text \<open>
  C6. On every list, sorted or not, and for every target, \<^verbatim>\<open>busca_binaria\<close> returns a
  record or absent and never raises; every index it reads lies within the list; and
  since the interval between \<open>lo\<close> and \<open>hi\<close> loses at least one index at every
  iteration, it reads at most as many indices as the list is long.
\<close>

theorem busca_binaria_total_in_bounds:
  "(\<exists>r. busca_binaria xs nome = Inr r)
   \<and> (\<forall>i \<in> set (busca_binaria_reads xs nome). 0 \<le> i \<and> i < int (length xs))
   \<and> length (busca_binaria_reads xs nome) \<le> length xs"
proof -
  have lo: "(0::int) \<le> 0" and hi: "int (length xs) - 1 < int (length xs)" by simp_all
  from busca_laco_safe [OF lo hi, of "lower nome"] show ?thesis
    by (auto simp: busca_binaria_def busca_binaria_reads_def)
qed

theorem busca_binaria_total_in_bounds_witness:
  "busca_binaria_reads
     [\<lparr>insumo = ''Tubo'', quantidade = 1, exame = ''PCR'', validade = None\<rparr>,
      \<lparr>insumo = ''Agulha'', quantidade = 3, exame = ''PCR'', validade = None\<rparr>,
      \<lparr>insumo = ''Swab'', quantidade = 5, exame = ''PCR'', validade = None\<rparr>,
      \<lparr>insumo = ''Luva'', quantidade = 5, exame = ''PCR'', validade = None\<rparr>] ''TUBO'' = [1, 2, 3]
   \<and> list_all (\<lambda>i. 0 \<le> i \<and> i < 4)
       (busca_binaria_reads
          [\<lparr>insumo = ''Tubo'', quantidade = 1, exame = ''PCR'', validade = None\<rparr>,
           \<lparr>insumo = ''Agulha'', quantidade = 3, exame = ''PCR'', validade = None\<rparr>,
           \<lparr>insumo = ''Swab'', quantidade = 5, exame = ''PCR'', validade = None\<rparr>,
           \<lparr>insumo = ''Luva'', quantidade = 5, exame = ''PCR'', validade = None\<rparr>] ''TUBO'')
   \<and> busca_binaria
     [\<lparr>insumo = ''Tubo'', quantidade = 1, exame = ''PCR'', validade = None\<rparr>,
      \<lparr>insumo = ''Agulha'', quantidade = 3, exame = ''PCR'', validade = None\<rparr>,
      \<lparr>insumo = ''Swab'', quantidade = 5, exame = ''PCR'', validade = None\<rparr>,
      \<lparr>insumo = ''Luva'', quantidade = 5, exame = ''PCR'', validade = None\<rparr>] ''TUBO'' = Inr None"
proof -
  let ?L = "[\<lparr>insumo = ''Tubo'', quantidade = 1, exame = ''PCR'', validade = None\<rparr>,
      \<lparr>insumo = ''Agulha'', quantidade = 3, exame = ''PCR'', validade = None\<rparr>,
      \<lparr>insumo = ''Swab'', quantidade = 5, exame = ''PCR'', validade = None\<rparr>,
      \<lparr>insumo = ''Luva'', quantidade = 5, exame = ''PCR'', validade = None\<rparr>]"
  have reads: "busca_binaria_reads ?L ''TUBO'' = [1, 2, 3]" by code_simp
  have res: "busca_binaria ?L ''TUBO'' = Inr None" by code_simp
  from busca_binaria_total_in_bounds [of ?L "''TUBO''"]
  have "list_all (\<lambda>i. 0 \<le> i \<and> i < 4) (busca_binaria_reads ?L ''TUBO'')"
    by (simp add: list_all_iff)
  with reads res show ?thesis by blast
qed

text \<open>
  C7. The queue is first-in first-out. On a fresh queue, registering \<open>a\<close>, \<open>b\<close>, \<open>c\<close>
  and calling \<^verbatim>\<open>proximo\<close> four times yields the entries of \<open>a\<close>, \<open>b\<close>, \<open>c\<close> and then
  absent; registering any entries \<open>es\<close> and calling \<^verbatim>\<open>proximo\<close> once more than their
  number yields exactly \<open>es\<close> in insertion order, then absent; and for every sequence
  of calls, no call fails and the entries removed so far followed by the entries still
  held are the entries inserted, in insertion order.
\<close>

theorem fila_fifo:
  "fila_run [Registrar t1 a, Registrar t2 b, Registrar t3 c, Proximo, Proximo, Proximo, Proximo]
       FilaConsumo_init
     = Inr ([Some (t1, a), Some (t2, b), Some (t3, c), None], FilaConsumo_init)
   \<and> fila_run (map (\<lambda>(now, item). Registrar now item) es @ replicate (length es + 1) Proximo)
       FilaConsumo_init
     = Inr (map Some es @ [None], FilaConsumo_init)
   \<and> (\<exists>rs self'. fila_run calls FilaConsumo_init = Inr (rs, self') \<and>
         removed rs @ fila_q self' = fila_inserted calls)"
proof (intro conjI)
  show "fila_run [Registrar t1 a, Registrar t2 b, Registrar t3 c, Proximo, Proximo, Proximo, Proximo]
       FilaConsumo_init
     = Inr ([Some (t1, a), Some (t2, b), Some (t3, c), None], FilaConsumo_init)"
    by (simp add: FilaConsumo_init_def registrar_consumo_def proximo_cases)
next
  have "fila_run (replicate (length es) Proximo @ [Proximo]) \<lparr>fila_q = es\<rparr>
          = Inr (map Some es @ [None], \<lparr>fila_q = []\<rparr>)"
    unfolding fila_run_drain by (simp add: proximo_cases)
  then show "fila_run (map (\<lambda>(now, item). Registrar now item) es @ replicate (length es + 1) Proximo)
       FilaConsumo_init = Inr (map Some es @ [None], FilaConsumo_init)"
    unfolding fila_run_registrar by (simp add: FilaConsumo_init_def replicate_append_same)
next
  from fila_run_total [of calls FilaConsumo_init]
  show "\<exists>rs self'. fila_run calls FilaConsumo_init = Inr (rs, self') \<and>
         removed rs @ fila_q self' = fila_inserted calls"
    by (simp add: FilaConsumo_init_def)
qed

text \<open>
  C8. The stack is last-in first-out. On a fresh stack, pushing \<open>a\<close>, \<open>b\<close>, \<open>c\<close> and
  calling \<^verbatim>\<open>ultimo\<close> four times yields the entries of \<open>c\<close>, \<open>b\<close>, \<open>a\<close> and then absent;
  pushing any entries \<open>es\<close> and popping once more than their number yields \<open>es\<close>
  reversed, then absent; and a pop right after a push returns the pushed entry and
  restores the stack.
\<close>

theorem pilha_lifo:
  "pilha_run [Consultar t1 a, Consultar t2 b, Consultar t3 c, Ultimo, Ultimo, Ultimo, Ultimo]
       PilhaConsultas_init
     = Inr ([Some (t3, c), Some (t2, b), Some (t1, a), None], PilhaConsultas_init)
   \<and> pilha_run (map (\<lambda>(now, item). Consultar now item) es @ replicate (length es + 1) Ultimo)
       PilhaConsultas_init
     = Inr (map Some (rev es) @ [None], PilhaConsultas_init)
   \<and> ultimo (consultar self now item) = Inr (Some (now, item), self)"
proof (intro conjI)
  show "pilha_run [Consultar t1 a, Consultar t2 b, Consultar t3 c, Ultimo, Ultimo, Ultimo, Ultimo]
       PilhaConsultas_init
     = Inr ([Some (t3, c), Some (t2, b), Some (t1, a), None], PilhaConsultas_init)"
    by (simp add: PilhaConsultas_init_def consultar_def ultimo_cases)
next
  have "pilha_run (replicate (length es) Ultimo @ [Ultimo]) \<lparr>pilha_stack = es\<rparr>
          = Inr (map Some (rev es) @ [None], \<lparr>pilha_stack = []\<rparr>)"
    unfolding pilha_run_drain by (simp add: ultimo_cases)
  then show "pilha_run (map (\<lambda>(now, item). Consultar now item) es @ replicate (length es + 1) Ultimo)
       PilhaConsultas_init = Inr (map Some (rev es) @ [None], PilhaConsultas_init)"
    unfolding pilha_run_consultar by (simp add: PilhaConsultas_init_def replicate_append_same)
next
  show "ultimo (consultar self now item) = Inr (Some (now, item), self)"
    by (simp add: ultimo_cases consultar_def)
qed

text \<open>
  C9. \<^verbatim>\<open>proximo\<close> on an empty queue and \<^verbatim>\<open>ultimo\<close> on an empty stack return absent as a
  value, raise nothing and leave the container as it was, of length 0; in no state do
  the two calls raise.
\<close>

theorem empty_containers_absent:
  "proximo (self\<lparr>fila_q := []\<rparr>) = Inr (None, self\<lparr>fila_q := []\<rparr>)
   \<and> fila_len (self\<lparr>fila_q := []\<rparr>) = 0
   \<and> ultimo (st\<lparr>pilha_stack := []\<rparr>) = Inr (None, st\<lparr>pilha_stack := []\<rparr>)
   \<and> pilha_len (st\<lparr>pilha_stack := []\<rparr>) = 0
   \<and> proximo FilaConsumo_init = Inr (None, FilaConsumo_init)
   \<and> fila_len FilaConsumo_init = 0
   \<and> ultimo PilhaConsultas_init = Inr (None, PilhaConsultas_init)
   \<and> pilha_len PilhaConsultas_init = 0
   \<and> (\<exists>r. proximo self = Inr r) \<and> (\<exists>r. ultimo st = Inr r)"
  by (simp add: proximo_cases ultimo_cases fila_len_def pilha_len_def
      FilaConsumo_init_def PilhaConsultas_init_def split: list.split)

text \<open>
  C10. The list \<^verbatim>\<open>quick_sort\<close> returns does not depend on the pivots the random source
  selects: for any two behaviours of the source the results are equal, each is equal
  to the result of \<^verbatim>\<open>merge_sort\<close>, and for every key value the elements carrying it
  come out in their input order.
\<close>

theorem quick_sort_pivot_independent:
  "fst (quick_sort draws n S k) = fst (quick_sort draws' n' S k)
   \<and> fst (quick_sort draws n S k) = merge_sort S k
   \<and> filter (\<lambda>x. k x = v) (fst (quick_sort draws n S k)) = filter (\<lambda>x. k x = v) S"
  by (simp add: merge_sort_eq_sort_key quick_sort_eq_sort_key sort_key_stable)

end
